theory Spec2Isabelle
  imports Main "HOL-Library.Multiset"
begin

section \<open>Rollback: a registry of compensating steps (rollback.py)\<close>

text \<open>
  The class \<^verbatim>\<open>Rollback\<close> keeps a list of steps \<^verbatim>\<open>(callback, args, kwargs)\<close>, runs it
  in LIFO order in \<^verbatim>\<open>do_rollback\<close>, and is a context manager whose exit hook decides
  whether rollback fires and whether the exception of the guarded block is suppressed.

  Modelling decisions, each following the source:
  \<^item> a step is the triple of the source; positional arguments are a list of values, keyword
    arguments an association list from names to values;
  \<^item> the instance is a record of its four attributes, together with the identity of the object
    (\<open>obj_id\<close>), which the source compares with \<^verbatim>\<open>this is self\<close>;
  \<^item> callbacks are supplied by the caller and are arbitrary code: the environment gives, for
    each callback, whether \<^verbatim>\<open>asyncio.iscoroutinefunction\<close> holds of it and what invoking it does.
    An invocation gets the instance as it is at the call (the step already popped) and the
    rest of the program's state (the world \<open>'w\<close>); it returns both as it leaves them, and
    \<open>Some e\<close> when it raises \<open>e\<close>. So a callback may call \<^verbatim>\<open>add_step\<close>, \<^verbatim>\<open>clear_steps\<close> or
    \<^verbatim>\<open>do_rollback\<close> on the instance, or assign its attributes; the identity of the object is
    the one thing it cannot change;
  \<^item> since a callback may register steps while the rollback runs, the loop of
    \<^verbatim>\<open>do_rollback\<close> need not end: \<^verbatim>\<open>do_rollback\<close> is a partial function, \<open>None\<close> when the loop
    runs forever;
  \<^item> of \<^verbatim>\<open>asyncio\<close> the machine holds what \<^verbatim>\<open>asyncio.get_event_loop()\<close> finds in the thread
    (\<open>event_loop\<close>) and the number of \<^verbatim>\<open>do_rollback\<close> tasks created and not yet run (\<open>tasks\<close>);
  \<^item> an exception is a value: functions that may raise return \<open>exn + result\<close>.
\<close>

subsection \<open>Data\<close>

type_synonym ('cb, 'v) step = "'cb \<times> 'v list \<times> (string \<times> 'v) list"

record ('cb, 'v) rollback =
  obj_id :: nat
  steps :: "('cb, 'v) step list"
  on_error :: bool
  on_success :: bool
  raise_error :: bool

text \<open>
  Exceptions: one raised by a callback; the \<^verbatim>\<open>TypeError\<close> that Python raises when \<^verbatim>\<open>await\<close>
  is applied to an object that is not awaitable; the \<^verbatim>\<open>RuntimeError\<close> that
  \<^verbatim>\<open>asyncio.get_event_loop()\<close> raises when the thread has no current event loop.
\<close>

datatype 'e exn = Raised 'e | AwaitTypeError | RuntimeError

text \<open>
  What \<^verbatim>\<open>asyncio.get_event_loop()\<close> finds in the calling thread. \<open>LoopRunning\<close>: a loop is
  running, and is returned. \<open>LoopIdle\<close>: a loop that is not running is returned (the thread
  has a current loop, or it is the main thread of a Python that still creates one on demand
  and none was ever set). \<open>NoCurrentLoop\<close>: there is no current loop and none is created, and
  the call raises \<^verbatim>\<open>RuntimeError\<close>; this is the state of a thread other than the main thread,
  and of any thread after \<^verbatim>\<open>asyncio.run\<close> has returned, because \<^verbatim>\<open>asyncio.run\<close> ends with
  \<^verbatim>\<open>set_event_loop(None)\<close>.
\<close>

datatype loop_state = LoopRunning | LoopIdle | NoCurrentLoop

text \<open>
  The first argument of \<open>invoke\<close> tells how the code invokes the callback: \<open>True\<close> for
  \<^verbatim>\<open>await callback(*args, **kwargs)\<close>, \<open>False\<close> for the plain call.
\<close>

record ('cb, 'v, 'w, 'e) pyenv =
  iscoroutinefunction :: "'cb \<Rightarrow> bool"
  invoke :: "bool \<Rightarrow> 'cb \<Rightarrow> 'v list \<Rightarrow> (string \<times> 'v) list \<Rightarrow> ('cb, 'v) rollback \<Rightarrow> 'w \<Rightarrow>
    'e option \<times> ('cb, 'v) rollback \<times> 'w"

record ('cb, 'v, 'w) machine =
  registry :: "('cb, 'v) rollback"
  world :: 'w
  event_loop :: loop_state
  tasks :: nat

text \<open>
  A traceback is the linked list of Python: every entry has a frame and a next entry or
  \<^verbatim>\<open>None\<close>. Of a frame the source reads \<^verbatim>\<open>f_locals.get("self")\<close> (the identity of the object
  bound to the local \<^verbatim>\<open>self\<close>, if there is one) and \<^verbatim>\<open>f_code.co_name\<close>.
\<close>

record frame =
  f_locals_self :: "nat option"
  co_name :: string

datatype traceback = Traceback (tb_frame: frame) (tb_next: "traceback option")

subsection \<open>Construction, scope entry, registration\<close>

definition init :: "nat \<Rightarrow> bool \<Rightarrow> bool \<Rightarrow> bool \<Rightarrow> ('cb, 'v) rollback" where
  "init oid on_error_arg on_success_arg raise_error_arg =
     \<lparr>obj_id = oid, steps = [], on_error = on_error_arg, on_success = on_success_arg,
      raise_error = raise_error_arg\<rparr>"

text \<open>The defaults of \<^verbatim>\<open>__init__\<close>: \<^verbatim>\<open>on_error=False, on_success=False, raise_error=True\<close>.\<close>

definition init_default :: "nat \<Rightarrow> ('cb, 'v) rollback" where
  "init_default oid = init oid False False True"

definition enter :: "('cb, 'v) rollback \<Rightarrow> ('cb, 'v) rollback" where
  "enter self = self"

definition aenter :: "('cb, 'v) rollback \<Rightarrow> ('cb, 'v) rollback" where
  "aenter self = self"

definition add_step ::
  "('cb, 'v) rollback \<Rightarrow> 'cb \<Rightarrow> 'v list \<Rightarrow> (string \<times> 'v) list \<Rightarrow> ('cb, 'v) rollback" where
  "add_step self callback args kwargs = self\<lparr>steps := steps self @ [(callback, args, kwargs)]\<rparr>"

definition clear_steps :: "('cb, 'v) rollback \<Rightarrow> ('cb, 'v) rollback" where
  "clear_steps self = self\<lparr>steps := []\<rparr>"

subsection \<open>do_rollback\<close>

text \<open>
  Lines 133 to 136: the callback is awaited when it is a coroutine function and called
  otherwise, with the arguments of the step. It runs on the instance and the world and may
  raise; the object it leaves is the same object.
\<close>

definition call_step ::
  "('cb, 'v, 'w, 'e) pyenv \<Rightarrow> ('cb, 'v, 'w) machine \<Rightarrow> ('cb, 'v) step \<Rightarrow>
     'e option \<times> ('cb, 'v, 'w) machine" where
  "call_step env m s =
     (case s of (callback, args, kwargs) \<Rightarrow>
        (case invoke env (iscoroutinefunction env callback) callback args kwargs
                (registry m) (world m) of
           (r, self', w') \<Rightarrow>
             (r, m\<lparr>registry := self'\<lparr>obj_id := obj_id (registry m)\<rparr>, world := w'\<rparr>)))"

text \<open>The machine in which the list of the instance is \<open>xs\<close>.\<close>

definition set_steps ::
  "('cb, 'v, 'w) machine \<Rightarrow> ('cb, 'v) step list \<Rightarrow> ('cb, 'v, 'w) machine" where
  "set_steps m xs = m\<lparr>registry := (registry m)\<lparr>steps := xs\<rparr>\<rparr>"

text \<open>
  \<^verbatim>\<open>self.steps.pop()\<close>: the last step is removed from the list and returned. The loop calls
  it on a list that is not empty only.
\<close>

definition pop_step ::
  "('cb, 'v, 'w) machine \<Rightarrow> ('cb, 'v) step \<times> ('cb, 'v, 'w) machine" where
  "pop_step m = (last (steps (registry m)), set_steps m (butlast (steps (registry m))))"

text \<open>
  \<^verbatim>\<open>do_rollback\<close> is a coroutine function; the model is its body run to completion, as
  \<^verbatim>\<open>await\<close> and \<^verbatim>\<open>asyncio.run\<close> run it. While the list is not empty, the last step is popped
  and invoked, the next one only when the call has returned; the list is read again at every
  turn, so steps that a callback registers are run too. An exception raised by a step leaves
  the loop at once. The result is \<open>None\<close> when the loop never ends, and else \<open>Inl\<close> of the
  exception or \<open>Inr ()\<close> for the normal return, with the machine in which the call ends.
\<close>

partial_function (option) do_rollback ::
  "('cb, 'v, 'w, 'e) pyenv \<Rightarrow> ('cb, 'v, 'w) machine \<Rightarrow>
     (('e exn + unit) \<times> ('cb, 'v, 'w) machine) option" where
  "do_rollback env m =
     (if steps (registry m) = [] then Some (Inr (), m)
      else
        (case call_step env (snd (pop_step m)) (fst (pop_step m)) of
           (Some e, m') \<Rightarrow> Some (Inl (Raised e), m')
         | (None, m') \<Rightarrow> do_rollback env m'))"

subsection \<open>The traceback scan\<close>

text \<open>
  \<^verbatim>\<open>_frames\<close>: the generator starts at the traceback it is given, and as long as the current
  entry has a next one it moves to that entry and yields its frame.
\<close>

fun frames :: "traceback \<Rightarrow> frame list" where
  "frames (Traceback f None) = []"
| "frames (Traceback f (Some nxt)) = tb_frame nxt # frames nxt"

text \<open>
  \<^verbatim>\<open>_method_in_traceback\<close>: the loop over the frames, left at the first frame whose local
  \<^verbatim>\<open>self\<close> is this instance and whose code has the name asked for.
\<close>

fun scan_frames :: "('cb, 'v) rollback \<Rightarrow> string \<Rightarrow> frame list \<Rightarrow> bool" where
  "scan_frames self name [] = False"
| "scan_frames self name (f # fs) =
     (if f_locals_self f = Some (obj_id self) \<and> co_name f = name then True
      else scan_frames self name fs)"

definition method_in_traceback :: "('cb, 'v) rollback \<Rightarrow> string \<Rightarrow> traceback \<Rightarrow> bool" where
  "method_in_traceback self name traceback = scan_frames self name (frames traceback)"

subsection \<open>Scope exit\<close>

text \<open>
  \<^verbatim>\<open>_handle_exit\<close>. When the policy fires, line 74 calls \<^verbatim>\<open>asyncio.get_event_loop()\<close>. With no
  current loop that call raises \<^verbatim>\<open>RuntimeError\<close>, which leaves the hook; no rollback runs.
  With a loop running, the rollback is handed to \<^verbatim>\<open>asyncio.create_task\<close>: the task is
  scheduled and none of its steps has run when the hook returns. With a loop that is not
  running, \<^verbatim>\<open>asyncio.run\<close> runs \<^verbatim>\<open>do_rollback\<close> to completion in a loop of its own and leaves
  the thread without a current loop; an exception of a step leaves the hook. The result is
  \<open>None\<close> when the rollback never ends, and else the exception leaving the hook or the
  suppression decision.
\<close>

definition handle_exit ::
  "('cb, 'v, 'w, 'e) pyenv \<Rightarrow> ('cb, 'v, 'w) machine \<Rightarrow> 't option \<Rightarrow> 'x option \<Rightarrow>
     traceback option \<Rightarrow> (('e exn + bool) \<times> ('cb, 'v, 'w) machine) option" where
  "handle_exit env m exception_type exception_value traceback =
     (let error = (traceback \<noteq> None);
          suppress_error = (\<not> raise_error (registry m));
          ran =
            (if (error \<and> on_error (registry m)) \<or> (on_success (registry m) \<and> \<not> error) then
               (case event_loop m of
                  NoCurrentLoop \<Rightarrow> Some (Inl RuntimeError, m)
                | LoopRunning \<Rightarrow> Some (Inr (), m\<lparr>tasks := Suc (tasks m)\<rparr>)
                | LoopIdle \<Rightarrow>
                    (case do_rollback env m of
                       None \<Rightarrow> None
                     | Some (r, m') \<Rightarrow> Some (r, m'\<lparr>event_loop := NoCurrentLoop\<rparr>)))
             else Some (Inr (), m))
      in case ran of
           None \<Rightarrow> None
         | Some (Inl e, m') \<Rightarrow> Some (Inl e, m')
         | Some (Inr u, m') \<Rightarrow>
             Some (Inr (if error \<and> suppress_error then
                          (case traceback of
                             Some tb \<Rightarrow> \<not> method_in_traceback (registry m') ''do_rollback'' tb
                           | None \<Rightarrow> suppress_error)
                        else suppress_error), m'))"

text \<open>\<^verbatim>\<open>__exit__\<close> returns what \<^verbatim>\<open>_handle_exit\<close> returns.\<close>

definition exit ::
  "('cb, 'v, 'w, 'e) pyenv \<Rightarrow> ('cb, 'v, 'w) machine \<Rightarrow> 't option \<Rightarrow> 'x option \<Rightarrow>
     traceback option \<Rightarrow> (('e exn + bool) \<times> ('cb, 'v, 'w) machine) option" where
  "exit env m exception_type exception_value traceback =
     handle_exit env m exception_type exception_value traceback"

text \<open>
  \<^verbatim>\<open>__aexit__\<close> is \<^verbatim>\<open>return await self._handle_exit(...)\<close>. \<^verbatim>\<open>_handle_exit\<close> is a plain method
  (\<^verbatim>\<open>def\<close>, not \<^verbatim>\<open>async def\<close>): the call runs it at once and yields its Boolean result, and
  \<^verbatim>\<open>await\<close> applied to a Boolean raises \<^verbatim>\<open>TypeError\<close>. An exception that leaves
  \<^verbatim>\<open>_handle_exit\<close> leaves \<^verbatim>\<open>__aexit__\<close> before the \<^verbatim>\<open>await\<close>.
\<close>

definition aexit ::
  "('cb, 'v, 'w, 'e) pyenv \<Rightarrow> ('cb, 'v, 'w) machine \<Rightarrow> 't option \<Rightarrow> 'x option \<Rightarrow>
     traceback option \<Rightarrow> (('e exn + bool) \<times> ('cb, 'v, 'w) machine) option" where
  "aexit env m exception_type exception_value traceback =
     (case handle_exit env m exception_type exception_value traceback of
        None \<Rightarrow> None
      | Some (Inl e, m') \<Rightarrow> Some (Inl e, m')
      | Some (Inr suppress_error, m') \<Rightarrow> Some (Inl AwaitTypeError, m'))"

subsection \<open>Callers\<close>

text \<open>
  A caller's script: any sequence of calls to \<^verbatim>\<open>add_step\<close>, \<^verbatim>\<open>clear_steps\<close> and
  \<^verbatim>\<open>do_rollback\<close> on one instance. The caller catches what \<^verbatim>\<open>do_rollback\<close> raises and goes on
  with the next call; the script does not end when a \<^verbatim>\<open>do_rollback\<close> does not.
  \<open>registered\<close> lists the steps the script registers, in order.
\<close>

datatype ('cb, 'v) op = AddStep 'cb "'v list" "(string \<times> 'v) list" | ClearSteps | DoRollback

fun exec_op ::
  "('cb, 'v, 'w, 'e) pyenv \<Rightarrow> ('cb, 'v, 'w) machine \<Rightarrow> ('cb, 'v) op \<Rightarrow>
     ('cb, 'v, 'w) machine option" where
  "exec_op env m (AddStep callback args kwargs) =
     Some (m\<lparr>registry := add_step (registry m) callback args kwargs\<rparr>)"
| "exec_op env m ClearSteps = Some (m\<lparr>registry := clear_steps (registry m)\<rparr>)"
| "exec_op env m DoRollback = map_option snd (do_rollback env m)"

fun exec_ops ::
  "('cb, 'v, 'w, 'e) pyenv \<Rightarrow> ('cb, 'v, 'w) machine \<Rightarrow> ('cb, 'v) op list \<Rightarrow>
     ('cb, 'v, 'w) machine option" where
  "exec_ops env m [] = Some m"
| "exec_ops env m (x # xs) =
     (case exec_op env m x of None \<Rightarrow> None | Some m' \<Rightarrow> exec_ops env m' xs)"


text \<open>Registering a list of steps in order, one \<^verbatim>\<open>add_step\<close> call for each.\<close>

fun add_steps :: "('cb, 'v) rollback \<Rightarrow> ('cb, 'v) step list \<Rightarrow> ('cb, 'v) rollback" where
  "add_steps self [] = self"
| "add_steps self ((callback, args, kwargs) # ss) =
     add_steps (add_step self callback args kwargs) ss"

subsection \<open>Observing the calls\<close>

text \<open>
  To say which callbacks the code invokes, every callback is wrapped in a recorder, as a
  test wraps it in a mock: \<open>recording env\<close> is the environment \<open>env\<close> in which each invocation,
  after the callback has run, appends to a log how it was invoked (awaited or called), the
  callback, its arguments and the exception it raised, if any. The recorder also counts the
  steps by which the callback made the list of the instance grow. The log and the count are
  part of the world of the wrapped callbacks and change in no other way. What the callbacks
  do to the instance and to their own world is untouched: a run under the recorder is the
  run without it with the log beside (lemma \<open>recording_transparent\<close>).

  The log holds the invocations made by the loop of \<^verbatim>\<open>do_rollback\<close> (line 133). A callback
  that itself awaits \<^verbatim>\<open>do_rollback\<close> on the instance is a callback whose effect on the
  instance is that of the nested run; the invocations of the nested run are part of that
  effect and are not entries of the log.
\<close>

datatype ('cb, 'v, 'e) call =
  Call (call_awaited: bool) (call_callback: 'cb) (call_args: "'v list")
    (call_kwargs: "(string \<times> 'v) list") (call_raised: "'e option")


record ('cb, 'v, 'w, 'e) recorded =
  inner :: 'w
  calls :: "('cb, 'v, 'e) call list"
  added :: "('cb, 'v) step multiset"

definition recording ::
  "('cb, 'v, 'w, 'e) pyenv \<Rightarrow> ('cb, 'v, ('cb, 'v, 'w, 'e) recorded, 'e) pyenv" where
  "recording env =
     \<lparr>iscoroutinefunction = iscoroutinefunction env,
      invoke = (\<lambda>b callback args kwargs self rw.
        (case invoke env b callback args kwargs self (inner rw) of
           (r, self', w') \<Rightarrow>
             (r, self',
              \<lparr>inner = w', calls = calls rw @ [Call b callback args kwargs r],
               added = added rw + (mset (steps self') - mset (steps self))\<rparr>)))\<rparr>"

text \<open>
  The machine without the recorder: the world is the world of the callbacks themselves.
\<close>

definition unrecorded ::
  "('cb, 'v, ('cb, 'v, 'w, 'e) recorded) machine \<Rightarrow> ('cb, 'v, 'w) machine" where
  "unrecorded m =
     \<lparr>registry = registry m, world = inner (world m), event_loop = event_loop m, tasks = tasks m\<rparr>"

text \<open>
  The log entry of a step invoked the way line 133 decides, with its outcome.
\<close>

definition call_of ::
  "('cb, 'v, 'w, 'e) pyenv \<Rightarrow> 'e option \<Rightarrow> ('cb, 'v) step \<Rightarrow> ('cb, 'v, 'e) call" where
  "call_of env r s =
     (case s of (callback, args, kwargs) \<Rightarrow>
        Call (iscoroutinefunction env callback) callback args kwargs r)"


text \<open>
  Properties a caller's callbacks may have. \<open>keeps_steps env xs\<close>: no callback of the
  steps \<open>xs\<close> changes the list of the instance (it does not call \<^verbatim>\<open>add_step\<close>,
  \<^verbatim>\<open>clear_steps\<close> or \<^verbatim>\<open>do_rollback\<close> on it). \<open>never_raises env xs\<close>: no callback of the steps
  \<open>xs\<close> raises. \<open>always_raises env s\<close>: the callback of the step \<open>s\<close> raises whenever it is
  invoked.
\<close>

definition keeps_steps :: "('cb, 'v, 'w, 'e) pyenv \<Rightarrow> ('cb, 'v) step list \<Rightarrow> bool" where
  "keeps_steps env xs =
     (\<forall>s \<in> set xs. \<forall>b self w.
        steps (fst (snd (invoke env b (fst s) (fst (snd s)) (snd (snd s)) self w))) = steps self)"

definition never_raises :: "('cb, 'v, 'w, 'e) pyenv \<Rightarrow> ('cb, 'v) step list \<Rightarrow> bool" where
  "never_raises env xs =
     (\<forall>s \<in> set xs. \<forall>b self w.
        fst (invoke env b (fst s) (fst (snd s)) (snd (snd s)) self w) = None)"


subsection \<open>Example instances\<close>

text \<open>
  An environment with five callbacks: \<^verbatim>\<open>f\<close> is a plain function, \<^verbatim>\<open>g\<close> a coroutine function,
  \<^verbatim>\<open>fail\<close> a plain function that raises, \<^verbatim>\<open>adder\<close> a plain function that registers the step
  \<^verbatim>\<open>f(9)\<close> on the instance, \<^verbatim>\<open>wiper\<close> a plain function that calls \<^verbatim>\<open>clear_steps\<close> on the
  instance and raises. Every call appends its positional arguments to the world, which is
  the list of the values seen so far. The machines below run it under the recorder.
\<close>

definition example_env :: "(string, nat, nat list, string) pyenv" where
  "example_env =
     \<lparr>iscoroutinefunction = (\<lambda>callback. callback = ''g''),
      invoke = (\<lambda>b callback args kwargs self w.
        if callback = ''fail'' then (Some ''boom'', self, w @ args)
        else if callback = ''adder'' then (None, add_step self ''f'' [9] [], w @ args)
        else if callback = ''wiper'' then (Some ''boom'', clear_steps self, w @ args)
        else (None, self, w @ args))\<rparr>"


definition example_machine ::
  "(string, nat) rollback \<Rightarrow> loop_state \<Rightarrow>
     (string, nat, (string, nat, nat list, string) recorded) machine" where
  "example_machine self loop =
     \<lparr>registry = self, world = \<lparr>inner = [], calls = [], added = {#}\<rparr>,
      event_loop = loop, tasks = 0\<rparr>"

definition three_steps :: "(string, nat, (string, nat, nat list, string) recorded) machine" where
  "three_steps =
     (example_machine (init_default 7) LoopIdle)
       \<lparr>registry := add_steps (registry (example_machine (init_default 7) LoopIdle))
          [(''f'', [0], []), (''g'', [1], []), (''f'', [2], [(''k'', 5)])]\<rparr>"

definition failing_steps :: "(string, nat, (string, nat, nat list, string) recorded) machine" where
  "failing_steps =
     example_machine
       (add_steps (init_default 7) [(''f'', [0], []), (''fail'', [1], []), (''g'', [2], [])])
       LoopIdle"

definition adder_steps :: "(string, nat, (string, nat, nat list, string) recorded) machine" where
  "adder_steps =
     (example_machine (init_default 7) LoopIdle)
       \<lparr>registry := add_steps (registry (example_machine (init_default 7) LoopIdle))
          [(''f'', [0], []), (''adder'', [1], [])]\<rparr>"

definition wiper_steps :: "(string, nat, (string, nat, nat list, string) recorded) machine" where
  "wiper_steps =
     example_machine (add_steps (init_default 7) [(''f'', [0], []), (''wiper'', [1], [])])
       LoopIdle"

definition script :: "(string, nat) op list" where
  "script =
     [AddStep ''f'' [0] [], AddStep ''fail'' [1] [], AddStep ''g'' [2] [], DoRollback,
      AddStep ''adder'' [3] [], DoRollback, ClearSteps, DoRollback]"

text \<open>
  An instance with one registered step \<^verbatim>\<open>f(0)\<close> under a given configuration, the frame of a
  caller, and the frame of the method \<^verbatim>\<open>do_rollback\<close> running on the object with a given
  identity.
\<close>

definition one_step ::
  "bool \<Rightarrow> bool \<Rightarrow> bool \<Rightarrow> loop_state \<Rightarrow>
     (string, nat, (string, nat, nat list, string) recorded) machine" where
  "one_step on_error_arg on_success_arg raise_error_arg loop =
     example_machine (add_step (init 7 on_error_arg on_success_arg raise_error_arg) ''f'' [0] []) loop"

definition caller_frame :: frame where
  "caller_frame = \<lparr>f_locals_self = None, co_name = ''main''\<rparr>"

definition do_rollback_frame_of :: "nat \<Rightarrow> frame" where
  "do_rollback_frame_of oid = \<lparr>f_locals_self = Some oid, co_name = ''do_rollback''\<rparr>"

subsection \<open>The exit policy in the words of the specification\<close>

text \<open>
  Step 3 of scope exit in the specification: rollback is executed when
  \<^verbatim>\<open>(hadError and onError) or (onSuccess and not hadError)\<close>. \<open>policy_fires\<close> is this condition
  for a given error flag. \<open>rollback_fired\<close> is what \<^verbatim>\<open>asyncio\<close> shows of it: between the two
  machines a \<^verbatim>\<open>do_rollback\<close> task was created, or \<^verbatim>\<open>asyncio.run\<close> has used up the thread's
  loop.
\<close>

definition policy_fires :: "bool \<Rightarrow> ('cb, 'v) rollback \<Rightarrow> bool" where
  "policy_fires had_error self =
     ((had_error \<and> on_error self) \<or> (on_success self \<and> \<not> had_error))"


section \<open>Properties of do_rollback\<close>

lemma set_steps_simps:
  "registry (set_steps m xs) = (registry m)\<lparr>steps := xs\<rparr>"
  "world (set_steps m xs) = world m"
  "event_loop (set_steps m xs) = event_loop m"
  "tasks (set_steps m xs) = tasks m"
  "set_steps (set_steps m xs) ys = set_steps m ys"
  by (simp_all add: set_steps_def)

lemma set_steps_same: "steps (registry m) = xs \<Longrightarrow> set_steps m xs = m"
  by (simp add: set_steps_def)



lemma call_step_fields:
  "call_step env m s = (r, m') \<Longrightarrow>
     obj_id (registry m') = obj_id (registry m) \<and>
     event_loop m' = event_loop m \<and> tasks m' = tasks m"
  by (auto simp: call_step_def split: prod.splits)

lemma do_rollback_Nil: "steps (registry m) = [] \<Longrightarrow> do_rollback env m = Some (Inr (), m)"
  by (simp add: do_rollback.simps)

lemma do_rollback_snoc:
  "steps (registry m) = xs @ [s] \<Longrightarrow>
     do_rollback env m =
       (case call_step env (set_steps m xs) s of
          (Some e, m') \<Rightarrow> Some (Inl (Raised e), m')
        | (None, m') \<Rightarrow> do_rollback env m')"
  by (subst do_rollback.simps) (simp add: pop_step_def)

text \<open>One turn of the loop, for a list that is not empty.\<close>

lemma do_rollback_turn:
  "steps (registry m) \<noteq> [] \<Longrightarrow>
     do_rollback env m =
       (case call_step env (snd (pop_step m)) (fst (pop_step m)) of
          (Some e, m') \<Rightarrow> Some (Inl (Raised e), m')
        | (None, m') \<Rightarrow> do_rollback env m')"
  by (subst do_rollback.simps) simp

lemma do_rollback_frame:
  assumes "do_rollback env m = Some (r, m')"
  shows "obj_id (registry m') = obj_id (registry m) \<and>
         event_loop m' = event_loop m \<and> tasks m' = tasks m"
proof -
  have "obj_id (registry (snd y)) = obj_id (registry m) \<and>
        event_loop (snd y) = event_loop m \<and> tasks (snd y) = tasks m"
    if "do_rollback env m = Some y" for y
    using that
  proof (induction env m y rule: do_rollback.raw_induct [rotated, consumes 1])
    case (1 do_rollback env m y)
    show ?case
    proof (cases "steps (registry m) = []")
      case True
      with 1(2) show ?thesis by auto
    next
      case False
      obtain r1 m1 where c: "call_step env (snd (pop_step m)) (fst (pop_step m)) = (r1, m1)"
        by (cases "call_step env (snd (pop_step m)) (fst (pop_step m))")
      from call_step_fields [OF c]
      have f: "obj_id (registry m1) = obj_id (registry m)" "event_loop m1 = event_loop m"
        "tasks m1 = tasks m"
        by (simp_all add: pop_step_def set_steps_simps)
      show ?thesis
      proof (cases r1)
        case None
        with 1(2) False c have "do_rollback env m1 = Some y" by simp
        from 1(1) [OF this] f show ?thesis by simp
      next
        case (Some e)
        with 1(2) False c have "y = (Inl (Raised e), m1)" by simp
        with f show ?thesis by simp
      qed
    qed
  qed
  from this [OF assms] show ?thesis by simp
qed

lemma do_rollback_normal_empty:
  assumes "do_rollback env m = Some (Inr u, m')"
  shows "steps (registry m') = []"
proof -
  have "fst y = Inr () \<longrightarrow> steps (registry (snd y)) = []"
    if "do_rollback env m = Some y" for y
    using that
  proof (induction env m y rule: do_rollback.raw_induct [rotated, consumes 1])
    case (1 do_rollback env m y)
    show ?case
    proof (cases "steps (registry m) = []")
      case True
      with 1(2) show ?thesis by auto
    next
      case False
      obtain r1 m1 where c: "call_step env (snd (pop_step m)) (fst (pop_step m)) = (r1, m1)"
        by (cases "call_step env (snd (pop_step m)) (fst (pop_step m))")
      show ?thesis
      proof (cases r1)
        case None
        with 1(2) False c have "do_rollback env m1 = Some y" by simp
        from 1(1) [OF this] show ?thesis .
      next
        case (Some e)
        with 1(2) False c have "y = (Inl (Raised e), m1)" by simp
        then show ?thesis by simp
      qed
    qed
  qed
  from this [OF assms] show ?thesis by simp
qed



text \<open>Runs with and without the recorder.\<close>

lemma unrecorded_simps:
  "registry (unrecorded m) = registry m"
  "world (unrecorded m) = inner (world m)"
  "event_loop (unrecorded m) = event_loop m"
  "tasks (unrecorded m) = tasks m"
  by (simp_all add: unrecorded_def)

lemma call_step_unrecorded:
  "call_step env (unrecorded m) s =
     (fst (call_step (recording env) m s), unrecorded (snd (call_step (recording env) m s)))"
  by (cases s) (simp add: call_step_def recording_def unrecorded_def split: prod.splits)

lemma pop_step_unrecorded:
  "pop_step (unrecorded m) = (fst (pop_step m), unrecorded (snd (pop_step m)))"
  by (simp add: pop_step_def set_steps_def unrecorded_def)

lemma do_rollback_unrecorded_1:
  assumes "do_rollback (recording env) m = Some (r, m')"
  shows "do_rollback env (unrecorded m) = Some (r, unrecorded m')"
proof -
  have "do_rollback env (unrecorded m) = Some (fst y, unrecorded (snd y))"
    if "do_rollback (recording env) m = Some y" for y
    using that
  proof (induction "recording env" m y rule: do_rollback.raw_induct [rotated, consumes 1])
    case (1 rec m y)
    show ?case
    proof (cases "steps (registry m) = []")
      case True
      with 1(2) have "y = (Inr (), m)" by auto
      with True show ?thesis by (simp add: do_rollback_Nil unrecorded_simps)
    next
      case False
      obtain r1 m1 where
        c: "call_step (recording env) (snd (pop_step m)) (fst (pop_step m)) = (r1, m1)"
        by (cases "call_step (recording env) (snd (pop_step m)) (fst (pop_step m))")
      have c': "call_step env (snd (pop_step (unrecorded m))) (fst (pop_step (unrecorded m))) =
          (r1, unrecorded m1)"
        using c by (simp add: pop_step_unrecorded call_step_unrecorded)
      have ne: "steps (registry (unrecorded m)) \<noteq> []"
        using False by (simp add: unrecorded_simps)
      show ?thesis
      proof (cases r1)
        case None
        with 1(2) False c have "rec (recording env) m1 = Some y" by simp
        from 1(1) [OF this] have "do_rollback env (unrecorded m1) = Some (fst y, unrecorded (snd y))" .
        with do_rollback_turn [OF ne, of env] c' None show ?thesis by simp
      next
        case (Some e)
        with 1(2) False c have "y = (Inl (Raised e), m1)" by simp
        with do_rollback_turn [OF ne, of env] c' Some show ?thesis by simp
      qed
    qed
  qed
  from this [OF assms] show ?thesis by simp
qed

lemma do_rollback_unrecorded_2:
  fixes env :: "('cb, 'v, 'w, 'e) pyenv"
    and m :: "('cb, 'v, ('cb, 'v, 'w, 'e) recorded) machine"
  assumes "do_rollback env m0 = Some (r, m0')" and "unrecorded m = m0"
  shows "\<exists>m'. do_rollback (recording env) m = Some (r, m') \<and> unrecorded m' = m0'"
proof -
  have "\<forall>m. unrecorded m = m0 \<longrightarrow>
      (\<exists>m'. do_rollback (recording env) m = Some (fst y, m') \<and> unrecorded m' = snd y)"
    if "do_rollback env m0 = Some y" for y
    using that
  proof (induction env m0 y rule: do_rollback.raw_induct [rotated, consumes 1])
    case (1 run env m0 y)
    show ?case
    proof (intro allI impI)
      fix m :: "('cb, 'v, ('cb, 'v, 'w, 'e) recorded) machine"
      assume un: "unrecorded m = m0"
      show "\<exists>m'. do_rollback (recording env) m = Some (fst y, m') \<and> unrecorded m' = snd y"
      proof (cases "steps (registry m) = []")
        case True
        with un have "steps (registry m0) = []" by (auto simp: unrecorded_def)
        with 1(2) have "y = (Inr (), m0)" by auto
        with True un show ?thesis by (simp add: do_rollback_Nil)
      next
        case False
        with un have ne0: "steps (registry m0) \<noteq> []" by (auto simp: unrecorded_def)
        obtain r1 m1 where
          c: "call_step (recording env) (snd (pop_step m)) (fst (pop_step m)) = (r1, m1)"
          by (cases "call_step (recording env) (snd (pop_step m)) (fst (pop_step m))")
        have c': "call_step env (snd (pop_step m0)) (fst (pop_step m0)) = (r1, unrecorded m1)"
          using c un [symmetric] by (simp add: pop_step_unrecorded call_step_unrecorded)
        show ?thesis
        proof (cases r1)
          case None
          with 1(2) ne0 c' have "run env (unrecorded m1) = Some y" by simp
          from 1(1) [OF this] obtain m' where
            "do_rollback (recording env) m1 = Some (fst y, m')" "unrecorded m' = snd y"
            by blast
          with do_rollback_turn [OF False, of "recording env"] c None show ?thesis by simp
        next
          case (Some e)
          with 1(2) ne0 c' have "y = (Inl (Raised e), unrecorded m1)" by simp
          with do_rollback_turn [OF False, of "recording env"] c Some show ?thesis by simp
        qed
      qed
    qed
  qed
  from this [OF assms(1)] assms(2) show ?thesis by auto
qed

text \<open>
  The recorder does not change what the rollback does: a run under the recorder is the run
  without it, with the log kept beside; one returns exactly when the other does.
\<close>

lemma recording_transparent:
  "do_rollback env (unrecorded m) =
     map_option (\<lambda>y. (fst y, unrecorded (snd y))) (do_rollback (recording env) m)"
proof (cases "do_rollback (recording env) m")
  case None
  have "do_rollback env (unrecorded m) = None"
  proof (rule ccontr)
    assume "do_rollback env (unrecorded m) \<noteq> None"
    then obtain r m0' where "do_rollback env (unrecorded m) = Some (r, m0')" by auto
    from do_rollback_unrecorded_2 [OF this refl] None show False by auto
  qed
  with None show ?thesis by simp
next
  case (Some y)
  then have "do_rollback (recording env) m = Some (fst y, snd y)" by simp
  from do_rollback_unrecorded_1 [OF this] Some show ?thesis by simp
qed




lemma keeps_steps_append:
  "keeps_steps env (xs @ ys) = (keeps_steps env xs \<and> keeps_steps env ys)"
  by (auto simp: keeps_steps_def)

lemma never_raises_append:
  "never_raises env (xs @ ys) = (never_raises env xs \<and> never_raises env ys)"
  by (auto simp: never_raises_def)

lemma call_step_keeps:
  assumes "keeps_steps env [s]" and "call_step (recording env) (set_steps m xs) s = (r, m')"
  shows "steps (registry m') = xs \<and> added (world m') = added (world m) \<and>
         calls (world m') = calls (world m) @ [call_of env r s] \<and>
         (never_raises env [s] \<longrightarrow> r = None)"
proof -
  obtain callback args kwargs where s: "s = (callback, args, kwargs)"
    by (cases s)
  obtain r0 self' w' where
    inv: "invoke env (iscoroutinefunction env callback) callback args kwargs
      ((registry m)\<lparr>steps := xs\<rparr>) (inner (world m)) = (r0, self', w')"
    by (cases "invoke env (iscoroutinefunction env callback) callback args kwargs
      ((registry m)\<lparr>steps := xs\<rparr>) (inner (world m))")
  from assms(1) have "steps (fst (snd (invoke env (iscoroutinefunction env callback) callback args
      kwargs ((registry m)\<lparr>steps := xs\<rparr>) (inner (world m))))) = xs"
    by (simp add: keeps_steps_def s)
  with inv have kept: "steps self' = xs" by simp
  have r0: "never_raises env [s] \<longrightarrow> r0 = None"
  proof
    assume "never_raises env [s]"
    then have "fst (invoke env (iscoroutinefunction env callback) callback args kwargs
      ((registry m)\<lparr>steps := xs\<rparr>) (inner (world m))) = None"
      by (simp add: never_raises_def s)
    with inv show "r0 = None" by simp
  qed
  from assms(2) inv kept r0 show ?thesis
    by (auto simp: call_step_def recording_def call_of_def set_steps_def s)
qed

text \<open>
  The rollback when no callback of the pending steps changes the list: it ends; the steps
  are invoked from the last one on; it returns normally after the first one, with the list
  empty, or raises what a step raised, right after that call, with the steps before it
  still in the list.
\<close>

lemma do_rollback_keeps:
  "keeps_steps env (steps (registry m)) \<Longrightarrow>
     \<exists>r m'. do_rollback (recording env) m = Some (r, m') \<and>
       added (world m') = added (world m) \<and>
       (never_raises env (steps (registry m)) \<longrightarrow> r = Inr ()) \<and>
       (case r of
          Inr u \<Rightarrow> steps (registry m') = [] \<and>
            calls (world m') =
              calls (world m) @ map (call_of env None) (rev (steps (registry m)))
        | Inl x \<Rightarrow> \<exists>pending s later e. x = Raised e \<and>
            steps (registry m) = pending @ s # later \<and>
            steps (registry m') = pending \<and>
            calls (world m') =
              calls (world m) @ map (call_of env None) (rev later) @ [call_of env (Some e) s])"
proof (induction xs \<equiv> "steps (registry m)" arbitrary: m rule: rev_induct)
  case Nil
  then show ?case by (simp add: do_rollback_Nil)
next
  case (snoc s xs)
  from snoc.prems snoc.hyps(2) [symmetric]
  have keep_xs: "keeps_steps env xs" and keep_s: "keeps_steps env [s]"
    by (simp_all add: keeps_steps_append)
  obtain r1 m1 where c: "call_step (recording env) (set_steps m xs) s = (r1, m1)"
    by (cases "call_step (recording env) (set_steps m xs) s")
  from call_step_keeps [OF keep_s c]
  have f: "steps (registry m1) = xs" "added (world m1) = added (world m)"
    "calls (world m1) = calls (world m) @ [call_of env r1 s]"
    "never_raises env [s] \<longrightarrow> r1 = None"
    by simp_all
  have unfold: "do_rollback (recording env) m =
    (case (r1, m1) of (Some e, m') \<Rightarrow> Some (Inl (Raised e), m')
      | (None, m') \<Rightarrow> do_rollback (recording env) m')"
    using do_rollback_snoc [of m xs s "recording env"] snoc.hyps(2) c by simp
  show ?case
  proof (cases r1)
    case (Some e)
    with unfold have "do_rollback (recording env) m = Some (Inl (Raised e), m1)" by simp
    moreover have "\<not> never_raises env (steps (registry m))"
      using f(4) Some snoc.hyps(2) [symmetric] by (simp add: never_raises_append)
    moreover have "\<exists>pending t later e'. Raised e = Raised e' \<and>
        steps (registry m) = pending @ t # later \<and> steps (registry m1) = pending \<and>
        calls (world m1) =
          calls (world m) @ map (call_of env None) (rev later) @ [call_of env (Some e') t]"
      using f Some snoc.hyps(2) [symmetric]
      by (intro exI [of _ xs] exI [of _ s] exI [of _ "[]"] exI [of _ e]) simp
    ultimately show ?thesis using f(2) by simp
  next
    case None
    with unfold have same: "do_rollback (recording env) m = do_rollback (recording env) m1"
      by simp
    have "xs = steps (registry m1)" using f by simp
    moreover have "keeps_steps env (steps (registry m1))" using f keep_xs by simp
    ultimately obtain r m' where
      run: "do_rollback (recording env) m1 = Some (r, m')"
      and grown: "added (world m') = added (world m1)"
      and ok: "never_raises env (steps (registry m1)) \<longrightarrow> r = Inr ()"
      and shape: "case r of
          Inr u \<Rightarrow> steps (registry m') = [] \<and>
            calls (world m') =
              calls (world m1) @ map (call_of env None) (rev (steps (registry m1)))
        | Inl x \<Rightarrow> \<exists>pending t later e. x = Raised e \<and>
            steps (registry m1) = pending @ t # later \<and>
            steps (registry m') = pending \<and>
            calls (world m') =
              calls (world m1) @ map (call_of env None) (rev later) @ [call_of env (Some e) t]"
      using snoc.hyps(1) [of m1] by blast
    have ok': "never_raises env (steps (registry m)) \<longrightarrow> r = Inr ()"
      using ok f(1) snoc.hyps(2) [symmetric] by (simp add: never_raises_append)
    have shape': "case r of
          Inr u \<Rightarrow> steps (registry m') = [] \<and>
            calls (world m') =
              calls (world m) @ map (call_of env None) (rev (steps (registry m)))
        | Inl x \<Rightarrow> \<exists>pending t later e. x = Raised e \<and>
            steps (registry m) = pending @ t # later \<and>
            steps (registry m') = pending \<and>
            calls (world m') =
              calls (world m) @ map (call_of env None) (rev later) @ [call_of env (Some e) t]"
    proof (cases r)
      case (Inr u)
      with shape f None snoc.hyps(2) [symmetric] show ?thesis by simp
    next
      case (Inl x)
      with shape obtain pending t later e where
        d: "x = Raised e" "steps (registry m1) = pending @ t # later"
          "steps (registry m') = pending"
          "calls (world m') =
            calls (world m1) @ map (call_of env None) (rev later) @ [call_of env (Some e) t]"
        by auto
      have "\<exists>pending' t' later' e'. x = Raised e' \<and>
          steps (registry m) = pending' @ t' # later' \<and>
          steps (registry m') = pending' \<and>
          calls (world m') =
            calls (world m) @ map (call_of env None) (rev later') @ [call_of env (Some e') t']"
        using d f None snoc.hyps(2) [symmetric]
        by (intro exI [of _ pending] exI [of _ t] exI [of _ "later @ [s]"] exI [of _ e]) simp
      with Inl show ?thesis by simp
    qed
    from same run grown f(2) ok' shape' show ?thesis by simp
  qed
qed



lemma steps_add_steps: "steps (add_steps self ss) = steps self @ ss"
  by (induction self ss rule: add_steps.induct) (simp_all add: add_step_def)



subsection \<open>The examples, run\<close>

lemmas example_defs =
  three_steps_def failing_steps_def adder_steps_def wiper_steps_def script_def one_step_def
  example_machine_def example_env_def init_default_def init_def add_step_def clear_steps_def
  caller_frame_def do_rollback_frame_of_def

lemmas run_defs =
  exit_def aexit_def handle_exit_def do_rollback.simps pop_step_def set_steps_def call_step_def
  recording_def method_in_traceback_def

lemma three_steps_run:
  "do_rollback (recording example_env) three_steps =
     Some (Inr (),
      \<lparr>registry = init_default 7,
       world = \<lparr>inner = [2, 1, 0],
         calls = [Call False ''f'' [2] [(''k'', 5)] None, Call True ''g'' [1] [] None,
                  Call False ''f'' [0] [] None],
         added = {#}\<rparr>,
       event_loop = LoopIdle, tasks = 0\<rparr>)"
  by (simp add: example_defs run_defs)


lemma adder_steps_run:
  "do_rollback (recording example_env) adder_steps =
     Some (Inr (),
      \<lparr>registry = init_default 7,
       world = \<lparr>inner = [1, 9, 0],
         calls = [Call False ''adder'' [1] [] None, Call False ''f'' [9] [] None,
                  Call False ''f'' [0] [] None],
         added = {#(''f'', [9], [])#}\<rparr>,
       event_loop = LoopIdle, tasks = 0\<rparr>)"
  by (simp add: example_defs run_defs)



lemma example_keeps:
  "keeps_steps example_env [(''f'', [0], []), (''g'', [1], []), (''f'', [2], [(''k'', 5)])]"
  "never_raises example_env [(''f'', [0], []), (''g'', [1], []), (''f'', [2], [(''k'', 5)])]"
  "keeps_steps example_env [(''f'', [0], []), (''fail'', [1], []), (''g'', [2], [])]"
  by (simp_all add: keeps_steps_def never_raises_def example_env_def)


section \<open>Properties of the exit hook\<close>

lemma scan_frames_obj_id:
  "obj_id self = obj_id self' \<Longrightarrow> scan_frames self name fs = scan_frames self' name fs"
  by (induction fs) simp_all

lemma method_in_traceback_obj_id:
  "obj_id self = obj_id self' \<Longrightarrow>
     method_in_traceback self name tb = method_in_traceback self' name tb"
  by (simp add: method_in_traceback_def scan_frames_obj_id [of self self'])

text \<open>The exit hook by cases: the policy, and what the thread has of an event loop.\<close>

lemma handle_exit_cases:
  "handle_exit env m ty v tb =
     (if policy_fires (tb \<noteq> None) (registry m) then
        (case event_loop m of
           NoCurrentLoop \<Rightarrow> Some (Inl RuntimeError, m)
         | LoopRunning \<Rightarrow>
             Some (Inr (case tb of None \<Rightarrow> \<not> raise_error (registry m)
                    | Some t \<Rightarrow> \<not> raise_error (registry m) \<and>
                        \<not> method_in_traceback (registry m) ''do_rollback'' t),
                   m\<lparr>tasks := Suc (tasks m)\<rparr>)
         | LoopIdle \<Rightarrow>
             (case do_rollback env m of
                None \<Rightarrow> None
              | Some (Inl e, m') \<Rightarrow> Some (Inl e, m'\<lparr>event_loop := NoCurrentLoop\<rparr>)
              | Some (Inr u, m') \<Rightarrow>
                  Some (Inr (case tb of None \<Rightarrow> \<not> raise_error (registry m)
                         | Some t \<Rightarrow> \<not> raise_error (registry m) \<and>
                             \<not> method_in_traceback (registry m) ''do_rollback'' t),
                        m'\<lparr>event_loop := NoCurrentLoop\<rparr>)))
      else
        Some (Inr (case tb of None \<Rightarrow> \<not> raise_error (registry m)
               | Some t \<Rightarrow> \<not> raise_error (registry m) \<and>
                   \<not> method_in_traceback (registry m) ''do_rollback'' t), m))"
proof -
  have same: "method_in_traceback (registry m') ''do_rollback'' t =
      method_in_traceback (registry m) ''do_rollback'' t"
    if "do_rollback env m = Some (r, m')" for r m' t
    using do_rollback_frame [OF that]
    by (simp add: method_in_traceback_obj_id [of "registry m'" "registry m"])
  show ?thesis
  proof (cases "do_rollback env m")
    case None
    then show ?thesis
      unfolding handle_exit_def policy_fires_def Let_def
      by (cases tb; cases "event_loop m") (auto split: sum.splits)
  next
    case (Some y)
    obtain r m' where y: "y = (r, m')" by (cases y)
    with Some have run: "do_rollback env m = Some (r, m')" by simp
    show ?thesis
      unfolding handle_exit_def policy_fires_def Let_def
      by (cases tb; cases "event_loop m"; cases r) (auto simp: run same [OF run])
  qed
qed



lemma aexit_never_returns: "aexit env m ty v tb \<noteq> Some (Inr b, m')"
  by (simp add: aexit_def split: option.splits prod.splits sum.splits)

section \<open>The claims\<close>

text \<open>
  C1 as the claim states it fails: the steps \<^verbatim>\<open>f(0)\<close> and \<^verbatim>\<open>adder(1)\<close> are registered in
  this order, and \<^verbatim>\<open>adder\<close> registers \<^verbatim>\<open>f(9)\<close> when it runs. The rollback invokes
  \<^verbatim>\<open>adder(1)\<close>, \<^verbatim>\<open>f(9)\<close>, \<^verbatim>\<open>f(0)\<close>: three calls, not the two registered steps in reverse.
\<close>

theorem do_rollback_runs_added_step:
  "steps (registry adder_steps) = [(''f'', [0], []), (''adder'', [1], [])] \<and>
   do_rollback (recording example_env) adder_steps =
     Some (Inr (),
      \<lparr>registry = init_default 7,
       world = \<lparr>inner = [1, 9, 0],
         calls = [Call False ''adder'' [1] [] None, Call False ''f'' [9] [] None,
                  Call False ''f'' [0] [] None],
         added = {#(''f'', [9], [])#}\<rparr>,
       event_loop = LoopIdle, tasks = 0\<rparr>) \<and>
   [Call False ''adder'' [1] [] None, Call False ''f'' [9] [] None, Call False ''f'' [0] [] None] \<noteq>
     map (call_of example_env None) (rev (steps (registry adder_steps)))"
  by (simp add: adder_steps_run) (simp add: example_defs)

text \<open>
  C1, amended. Steps \<open>ss\<close> registered in order by \<^verbatim>\<open>add_step\<close> on an instance whose list was
  empty, with callbacks that do not change the list of the instance: \<^verbatim>\<open>do_rollback\<close> ends, and
  when no step raises the calls that the callbacks record are exactly the steps of \<open>ss\<close> in
  reverse order, each once, each with the callback, the positional and the keyword arguments
  of its registration, awaited when the callback is a coroutine function and called
  otherwise; the list is left empty. When no step of \<open>ss\<close> can raise, \<^verbatim>\<open>do_rollback\<close> returns
  normally.
\<close>

theorem do_rollback_reverse_order:
  assumes empty: "steps (registry m) = []"
    and kept: "keeps_steps env ss"
  shows "\<exists>r m'. do_rollback (recording env) (m\<lparr>registry := add_steps (registry m) ss\<rparr>) = Some (r, m') \<and>
     (r = Inr () \<longrightarrow>
        calls (world m') = calls (world m) @ map (call_of env None) (rev ss) \<and>
        steps (registry m') = []) \<and>
     (never_raises env ss \<longrightarrow> r = Inr ())"
proof -
  let ?m = "m\<lparr>registry := add_steps (registry m) ss\<rparr>"
  have st: "steps (registry ?m) = ss"
    using empty by (simp add: steps_add_steps)
  with kept have "keeps_steps env (steps (registry ?m))" by simp
  from do_rollback_keeps [OF this] obtain r m' where
    run: "do_rollback (recording env) ?m = Some (r, m')"
    and ok: "never_raises env (steps (registry ?m)) \<longrightarrow> r = Inr ()"
    and shape: "case r of
          Inr u \<Rightarrow> steps (registry m') = [] \<and>
            calls (world m') =
              calls (world ?m) @ map (call_of env None) (rev (steps (registry ?m)))
        | Inl x \<Rightarrow> \<exists>pending s later e. x = Raised e \<and>
            steps (registry ?m) = pending @ s # later \<and>
            steps (registry m') = pending \<and>
            calls (world m') =
              calls (world ?m) @ map (call_of env None) (rev later) @ [call_of env (Some e) s]"
    by blast
  have "r = Inr () \<longrightarrow>
        calls (world m') = calls (world m) @ map (call_of env None) (rev ss) \<and>
        steps (registry m') = []"
    using shape st by auto
  moreover have "never_raises env ss \<longrightarrow> r = Inr ()"
    using ok st by simp
  ultimately show ?thesis using run by blast
qed

theorem do_rollback_reverse_order_witness:
  "steps (registry (example_machine (init_default 7) LoopIdle)) = [] \<and>
   keeps_steps example_env [(''f'', [0], []), (''g'', [1], []), (''f'', [2], [(''k'', 5)])] \<and>
   never_raises example_env [(''f'', [0], []), (''g'', [1], []), (''f'', [2], [(''k'', 5)])] \<and>
   do_rollback (recording example_env) three_steps =
     Some (Inr (),
      \<lparr>registry = init_default 7,
       world = \<lparr>inner = [2, 1, 0],
         calls = [Call False ''f'' [2] [(''k'', 5)] None, Call True ''g'' [1] [] None,
                  Call False ''f'' [0] [] None],
         added = {#}\<rparr>,
       event_loop = LoopIdle, tasks = 0\<rparr>) \<and>
   map (call_of example_env None) (rev [(''f'', [0], []), (''g'', [1], []), (''f'', [2], [(''k'', 5)])]) =
     [Call False ''f'' [2] [(''k'', 5)] None, Call True ''g'' [1] [] None,
      Call False ''f'' [0] [] None]"
proof -
  have empty: "steps (registry (example_machine (init_default 7) LoopIdle)) = []"
    by (simp add: example_machine_def init_default_def init_def)
  from do_rollback_reverse_order [OF empty example_keeps(1)] example_keeps(2)
  obtain m' where "do_rollback (recording example_env) three_steps = Some (Inr (), m')"
    "calls (world m') = calls (world (example_machine (init_default 7) LoopIdle)) @
       map (call_of example_env None)
         (rev [(''f'', [0], []), (''g'', [1], []), (''f'', [2], [(''k'', 5)])])"
    unfolding three_steps_def by blast
  then have "map (call_of example_env None)
      (rev [(''f'', [0], []), (''g'', [1], []), (''f'', [2], [(''k'', 5)])]) =
     [Call False ''f'' [2] [(''k'', 5)] None, Call True ''g'' [1] [] None,
      Call False ''f'' [0] [] None]"
    by (auto simp: three_steps_run example_machine_def)
  with empty example_keeps(1) example_keeps(2) three_steps_run show ?thesis by blast
qed






text \<open>
  C8. \<^verbatim>\<open>do_rollback\<close> with no step pending returns normally and changes nothing: no callback is
  invoked and the list stays empty. Hence a second \<^verbatim>\<open>do_rollback\<close> after one that returned
  normally is again a no-op, and so is \<^verbatim>\<open>do_rollback\<close> on an instance that was constructed and
  never entered as a context manager.
\<close>

theorem do_rollback_empty_noop:
  "(steps (registry m) = [] \<longrightarrow> do_rollback env m = Some (Inr (), m)) \<and>
   (do_rollback env m = Some (Inr (), m') \<longrightarrow> do_rollback env m' = Some (Inr (), m')) \<and>
   do_rollback env
     \<lparr>registry = init oid oe os re, world = w, event_loop = lp, tasks = n\<rparr>
   = Some (Inr (),
     \<lparr>registry = init oid oe os re, world = w, event_loop = lp, tasks = n\<rparr>)"
proof -
  have first: "do_rollback env m = Some (Inr (), m)" if "steps (registry m) = []" for m
    using that by (rule do_rollback_Nil)
  have again: "do_rollback env m' = Some (Inr (), m')"
    if "do_rollback env m = Some (Inr (), m')"
    using do_rollback_normal_empty [OF that] by (rule first)
  have fresh: "do_rollback env
     \<lparr>registry = init oid oe os re, world = w, event_loop = lp, tasks = n\<rparr>
   = Some (Inr (),
     \<lparr>registry = init oid oe os re, world = w, event_loop = lp, tasks = n\<rparr>)"
    by (rule first) (simp add: init_def)
  from first [of m] again fresh show ?thesis by blast
qed

theorem do_rollback_empty_noop_witness:
  "steps (registry (example_machine (init_default 7) LoopIdle)) = [] \<and>
   do_rollback (recording example_env) (example_machine (init_default 7) LoopIdle) =
     Some (Inr (), example_machine (init_default 7) LoopIdle) \<and>
   do_rollback (recording example_env) three_steps =
     Some (Inr (),
      \<lparr>registry = init_default 7,
       world = \<lparr>inner = [2, 1, 0],
         calls = [Call False ''f'' [2] [(''k'', 5)] None, Call True ''g'' [1] [] None,
                  Call False ''f'' [0] [] None],
         added = {#}\<rparr>,
       event_loop = LoopIdle, tasks = 0\<rparr>) \<and>
   do_rollback (recording example_env)
      \<lparr>registry = init_default 7,
       world = \<lparr>inner = [2, 1, 0],
         calls = [Call False ''f'' [2] [(''k'', 5)] None, Call True ''g'' [1] [] None,
                  Call False ''f'' [0] [] None],
         added = {#}\<rparr>,
       event_loop = LoopIdle, tasks = 0\<rparr> =
     Some (Inr (),
      \<lparr>registry = init_default 7,
       world = \<lparr>inner = [2, 1, 0],
         calls = [Call False ''f'' [2] [(''k'', 5)] None, Call True ''g'' [1] [] None,
                  Call False ''f'' [0] [] None],
         added = {#}\<rparr>,
       event_loop = LoopIdle, tasks = 0\<rparr>)"
proof -
  have h: "steps (registry (example_machine (init_default 7) LoopIdle)) = []"
    by (simp add: example_machine_def init_default_def init_def)
  from do_rollback_empty_noop [of "example_machine (init_default 7) LoopIdle"
      "recording example_env"]
    do_rollback_empty_noop [of three_steps "recording example_env"] h three_steps_run
  show ?thesis by simp
qed

text \<open>
  C9. \<^verbatim>\<open>clear_steps\<close> empties the list and invokes no callback (the world, with what the
  callbacks record, is as before); clearing twice is clearing once; a \<^verbatim>\<open>do_rollback\<close> after
  \<^verbatim>\<open>clear_steps\<close> returns normally and invokes nothing.
\<close>

theorem clear_steps_discards:
  "steps (clear_steps self) = [] \<and>
   clear_steps (clear_steps self) = clear_steps self \<and>
   exec_op env m ClearSteps = Some (m\<lparr>registry := clear_steps (registry m)\<rparr>) \<and>
   world (m\<lparr>registry := clear_steps (registry m)\<rparr>) = world m \<and>
   exec_ops env m [ClearSteps, ClearSteps] = exec_ops env m [ClearSteps] \<and>
   do_rollback env (m\<lparr>registry := clear_steps (registry m)\<rparr>) =
     Some (Inr (), m\<lparr>registry := clear_steps (registry m)\<rparr>) \<and>
   exec_ops env m [ClearSteps, DoRollback] = Some (m\<lparr>registry := clear_steps (registry m)\<rparr>)"
proof -
  have empty: "steps (registry (m\<lparr>registry := clear_steps (registry m)\<rparr>)) = []"
    by (simp add: clear_steps_def)
  have run: "do_rollback env (m\<lparr>registry := clear_steps (registry m)\<rparr>) =
      Some (Inr (), m\<lparr>registry := clear_steps (registry m)\<rparr>)"
    using empty by (rule do_rollback_Nil)
  then have "exec_ops env m [ClearSteps, DoRollback] =
      Some (m\<lparr>registry := clear_steps (registry m)\<rparr>)"
    by simp
  with run show ?thesis by (simp add: clear_steps_def)
qed

theorem clear_steps_discards_witness:
  "steps (registry three_steps) = [(''f'', [0], []), (''g'', [1], []), (''f'', [2], [(''k'', 5)])] \<and>
   exec_ops (recording example_env) three_steps [ClearSteps, DoRollback] =
     Some (example_machine (init_default 7) LoopIdle)"
  using clear_steps_discards [of "registry three_steps" "recording example_env" three_steps]
  by (simp add: three_steps_def example_machine_def init_default_def init_def add_step_def
      clear_steps_def)

text \<open>
  C2. Two blocks \<^verbatim>\<open>with Rollback(on_success=True)\<close> in a row in one thread, each with a step
  registered and left without an exception. The first exit runs the rollback with
  \<^verbatim>\<open>asyncio.run\<close>, which leaves the thread without a current event loop. At the second exit
  the policy fires again, \<^verbatim>\<open>asyncio.get_event_loop()\<close> raises \<^verbatim>\<open>RuntimeError\<close>, the hook raises
  it, and the step \<^verbatim>\<open>f(1)\<close> is not invoked and stays in the list. The same happens with
  \<^verbatim>\<open>on_error=True\<close> and an exception, in a thread that has no current loop.
\<close>

theorem exit_raises_without_event_loop:
  "exit (recording example_env) (one_step False True True LoopIdle)
      (None :: string option) (None :: string option) None =
     Some (Inr False,
      \<lparr>registry = init 7 False True True,
       world = \<lparr>inner = [0], calls = [Call False ''f'' [0] [] None], added = {#}\<rparr>,
       event_loop = NoCurrentLoop, tasks = 0\<rparr>) \<and>
   exit (recording example_env)
      \<lparr>registry = add_step (init 7 False True True) ''f'' [1] [],
       world = \<lparr>inner = [0], calls = [Call False ''f'' [0] [] None], added = {#}\<rparr>,
       event_loop = NoCurrentLoop, tasks = 0\<rparr>
      (None :: string option) (None :: string option) None =
     Some (Inl RuntimeError,
      \<lparr>registry = add_step (init 7 False True True) ''f'' [1] [],
       world = \<lparr>inner = [0], calls = [Call False ''f'' [0] [] None], added = {#}\<rparr>,
       event_loop = NoCurrentLoop, tasks = 0\<rparr>) \<and>
   policy_fires (None \<noteq> (None :: traceback option))
     (add_step (init 7 False True True :: (string, nat) rollback) ''f'' [1] []) \<and>
   exit (recording example_env) (one_step True False False NoCurrentLoop)
      (Some ''RollbackError'') (Some ''test'') (Some (Traceback caller_frame None)) =
     Some (Inl RuntimeError, one_step True False False NoCurrentLoop)"
  by (simp add: example_defs run_defs policy_fires_def)

text \<open>
  C3. The exit hook at a traceback whose first entry is the frame of this instance's
  \<^verbatim>\<open>do_rollback\<close>, with \<^verbatim>\<open>raise_error=False\<close>: the hook returns \<^verbatim>\<open>True\<close>, so the exception is
  suppressed although a frame of this instance's \<^verbatim>\<open>do_rollback\<close> is in the trace, whether the
  entry is the only one or is followed by others. With the same frame in the second entry the
  hook returns \<^verbatim>\<open>False\<close>.
\<close>

theorem exit_swallows_head_do_rollback_frame:
  "f_locals_self (do_rollback_frame_of 7) =
     Some (obj_id (registry (one_step False False False LoopIdle))) \<and>
   co_name (do_rollback_frame_of 7) = ''do_rollback'' \<and>
   exit (recording example_env) (one_step False False False LoopIdle)
       (Some ''RollbackError'') (Some ''test'')
     (Some (Traceback (do_rollback_frame_of 7) None)) =
     Some (Inr True, one_step False False False LoopIdle) \<and>
   exit (recording example_env) (one_step False False False LoopIdle)
       (Some ''RollbackError'') (Some ''test'')
     (Some (Traceback (do_rollback_frame_of 7) (Some (Traceback caller_frame None))))
     = Some (Inr True, one_step False False False LoopIdle) \<and>
   exit (recording example_env) (one_step False False False LoopIdle)
       (Some ''RollbackError'') (Some ''test'')
     (Some (Traceback caller_frame (Some (Traceback (do_rollback_frame_of 7) None))))
     = Some (Inr False, one_step False False False LoopIdle)"
  by (simp add: example_defs run_defs)

text \<open>
  C4. The asynchronous exit hook on an instance with \<^verbatim>\<open>on_success=True\<close> and one step, left
  without an exception. With an event loop running, \<^verbatim>\<open>__aexit__\<close> raises \<^verbatim>\<open>TypeError\<close>; the
  rollback was scheduled as a task and not awaited: the step is still in the list and nothing
  was invoked. With a loop that is not running the rollback runs, and \<^verbatim>\<open>__aexit__\<close> raises
  \<^verbatim>\<open>TypeError\<close> as well; so it does when the policy does not fire. The blocking hook returns
  \<^verbatim>\<open>False\<close> on the first input.
\<close>

theorem aexit_raises_type_error:
  "aexit (recording example_env) (one_step False True True LoopRunning)
      (None :: string option) (None :: string option) None =
     Some (Inl AwaitTypeError,
      \<lparr>registry = add_step (init 7 False True True) ''f'' [0] [],
       world = \<lparr>inner = [], calls = [], added = {#}\<rparr>,
       event_loop = LoopRunning, tasks = 1\<rparr>) \<and>
   aexit (recording example_env) (one_step False True True LoopIdle)
      (None :: string option) (None :: string option) None =
     Some (Inl AwaitTypeError,
      \<lparr>registry = init 7 False True True,
       world = \<lparr>inner = [0], calls = [Call False ''f'' [0] [] None], added = {#}\<rparr>,
       event_loop = NoCurrentLoop, tasks = 0\<rparr>) \<and>
   aexit (recording example_env) (one_step False False True LoopRunning)
      (None :: string option) (None :: string option) None =
     Some (Inl AwaitTypeError, one_step False False True LoopRunning) \<and>
   exit (recording example_env) (one_step False True True LoopRunning)
      (None :: string option) (None :: string option) None =
     Some (Inr False,
      \<lparr>registry = add_step (init 7 False True True) ''f'' [0] [],
       world = \<lparr>inner = [], calls = [], added = {#}\<rparr>,
       event_loop = LoopRunning, tasks = 1\<rparr>)"
  by (simp add: example_defs run_defs)




text \<open>
  C10. The scan of \<^verbatim>\<open>_method_in_traceback\<close> never looks at the first entry of the traceback:
  on a traceback of one entry it returns \<^verbatim>\<open>False\<close>, its result does not depend on the frame of
  the first entry, and with \<^verbatim>\<open>raise_error=False\<close> the exit hook at a traceback of one entry
  never returns \<^verbatim>\<open>False\<close>, whatever that frame is.
\<close>

theorem method_in_traceback_skips_first:
  "method_in_traceback self name (Traceback f None) = False \<and>
   method_in_traceback self name (Traceback f nxt) = method_in_traceback self name (Traceback f' nxt) \<and>
   (\<not> raise_error (registry m) \<longrightarrow>
      exit env m ty v (Some (Traceback f None)) \<noteq> Some (Inr False, m'))"
proof -
  have single: "method_in_traceback self name (Traceback f None) = False"
    by (simp add: method_in_traceback_def)
  have own: "method_in_traceback (registry m) ''do_rollback'' (Traceback f None) = False"
    by (simp add: method_in_traceback_def)
  have head: "method_in_traceback self name (Traceback f nxt) = method_in_traceback self name (Traceback f' nxt)"
    by (cases nxt) (simp_all add: method_in_traceback_def)
  have keep: "exit env m ty v (Some (Traceback f None)) \<noteq> Some (Inr False, m')"
    if "\<not> raise_error (registry m)"
    using that own
    by (cases "event_loop m"; cases "do_rollback env m")
      (auto simp: exit_def handle_exit_cases split: if_splits sum.splits prod.splits)
  from single head keep show ?thesis by blast
qed

theorem method_in_traceback_skips_first_witness:
  "\<not> raise_error (registry (one_step False False False LoopIdle)) \<and>
   f_locals_self (do_rollback_frame_of 7) =
     Some (obj_id (registry (one_step False False False LoopIdle))) \<and>
   method_in_traceback (registry (one_step False False False LoopIdle)) ''do_rollback''
     (Traceback (do_rollback_frame_of 7) None) = False \<and>
   exit (recording example_env) (one_step False False False LoopIdle)
       (Some ''RollbackError'') (Some ''test'')
     (Some (Traceback (do_rollback_frame_of 7) None)) =
     Some (Inr True, one_step False False False LoopIdle)"
  using method_in_traceback_skips_first [of "registry (one_step False False False LoopIdle)"
      "''do_rollback''" "do_rollback_frame_of 7" None "do_rollback_frame_of 7"
      "one_step False False False LoopIdle" "recording example_env" "Some ''RollbackError''"
      "Some ''test''"]
  by (simp add: example_defs run_defs)

end
